theory Spec2Isabelle
  imports Complex_Main "HOL-Library.Log_Nat"
begin

section \<open>VerticalPicker: values, display sequence and index lookup\<close>

text \<open>
  The picker's props are \<^verbatim>\<open>values: (string | number)[]\<close> and
  \<^verbatim>\<open>selectedValue: string | number | null\<close>. A value is a tagged union of a
  string and a number; \<^verbatim>\<open>null\<close> is \<open>None\<close> of \<open>val option\<close>. Numbers are
  rationals here: every finite number of the source is one, and the strict
  equality \<^verbatim>\<open>===\<close> of two finite numbers or two strings is equality of the
  values (a string never equals a number). The number NaN is outside the model.
\<close>

datatype val = Str string | Num rat

text \<open>\<^verbatim>\<open>const itemHeight = 32\<close>\<close>

definition itemHeight :: rat where
  "itemHeight = 32"

text \<open>\<^verbatim>\<open>const reversedValues = [...values].reverse(); const allValues = ["-", ...reversedValues];\<close>\<close>

definition reversedValues :: "val list \<Rightarrow> val list" where
  "reversedValues vs = rev vs"

definition allValues :: "val list \<Rightarrow> val list" where
  "allValues vs = Str ''-'' # reversedValues vs"

text \<open>
  \<^verbatim>\<open>Array.prototype.indexOf\<close>: the scan from index 0 upwards, comparing with
  \<^verbatim>\<open>===\<close>; the first match's index, or -1.
\<close>

fun indexOf_from :: "val list \<Rightarrow> val \<Rightarrow> int \<Rightarrow> int" where
  "indexOf_from [] v k = - 1"
| "indexOf_from (x # xs) v k = (if x = v then k else indexOf_from xs v (k + 1))"

definition indexOf :: "val list \<Rightarrow> val \<Rightarrow> int" where
  "indexOf xs v = indexOf_from xs v 0"

text \<open>
  \<^verbatim>\<open>allValues[index]\<close> for an integer index: the element, or \<^verbatim>\<open>undefined\<close>
  (\<open>None\<close>) outside the array.
\<close>

definition valueAt :: "val list \<Rightarrow> int \<Rightarrow> val option" where
  "valueAt xs i = (if 0 \<le> i \<and> i < int (length xs) then Some (xs ! nat i) else None)"

text \<open>\<^verbatim>\<open>Math.round\<close>: the nearest integer, a tie going up.\<close>

definition js_round :: "rat \<Rightarrow> int" where
  "js_round x = \<lfloor>x + 1 / 2\<rfloor>"

text \<open>
  A number of the source is an IEEE double: a rational m * 2^e with an integer m of
  magnitude below 2^53. NaN, the infinities and the limits of the exponent (magnitudes
  from 2^1024 on, and below 2^-1022) are outside the model. The result of an addition is
  the exact sum rounded to the nearest such rational, a tie going to the even m:
  \<open>fl\<close>, where \<open>expo x\<close> is the exponent e with 2^52 \<le> |x| / 2^e < 2^53. Of the
  arithmetic the picker does on offsets only the sums of lines 38 and 69 can round:
  halving, dividing by 32 and multiplying by 32 change the exponent alone, and
  \<^verbatim>\<open>Math.round\<close> returns the exact integer.
\<close>

definition expo :: "rat \<Rightarrow> int" where
  "expo x =
     (case quotient_of \<bar>x\<bar> of (p, q) \<Rightarrow>
        (let d = bitlen p - bitlen q - 53
         in if 2 ^ 53 \<le> \<bar>x\<bar> / 2 powi d then d + 1 else d))"

definition round_even :: "rat \<Rightarrow> int" where
  "round_even y =
     (let n = \<lfloor>y\<rfloor>; r = y - of_int n
      in if r < 1 / 2 then n else if 1 / 2 < r then n + 1 else if even n then n else n + 1)"

definition fl :: "rat \<Rightarrow> rat" where
  "fl x = (if x = 0 then 0 else of_int (round_even (x / 2 powi expo x)) * 2 powi expo x)"

section \<open>VerticalPicker: the component state and its handlers\<close>

text \<open>
  The state a handler can read or change: the two props, the scroll element behind
  \<^verbatim>\<open>scrollRef\<close> (its \<^verbatim>\<open>scrollTop\<close> and \<^verbatim>\<open>offsetHeight\<close>; \<open>mounted\<close> says that
  \<^verbatim>\<open>scrollRef.current\<close> is not null), the \<^verbatim>\<open>isScrolling\<close> state, the variable
  \<^verbatim>\<open>scrollTimeout\<close> of the listener effect (\<open>None\<close> while it is undefined) and the
  platform's pending one-shot timers. Timer identifiers are natural numbers, \<open>fresh\<close>
  the next one \<^verbatim>\<open>setTimeout\<close> hands out. Two logs record what the component asks
  of its collaborators: \<open>calls\<close> holds the arguments of every \<^verbatim>\<open>onValueChange\<close>
  invocation, \<open>scrolls\<close> the \<^verbatim>\<open>top\<close> of every smooth \<^verbatim>\<open>scrollTo\<close> request, oldest
  first.
\<close>

record picker =
  values_prop :: "val list"
  selectedValue :: "val option"
  mounted :: bool
  scrollTop :: rat
  offsetHeight :: rat
  isScrolling :: bool
  scrollTimeout :: "nat option"
  timers :: "nat list"
  fresh :: nat
  calls :: "val option list"
  scrolls :: "rat list"

definition onValueChange :: "val option \<Rightarrow> picker \<Rightarrow> picker" where
  "onValueChange v s = s\<lparr>calls := calls s @ [v]\<rparr>"

definition scrollTo_smooth :: "rat \<Rightarrow> picker \<Rightarrow> picker" where
  "scrollTo_smooth target s = s\<lparr>scrolls := scrolls s @ [target]\<rparr>"

text \<open>The sync effect of lines 23 to 31, run after a render.\<close>

definition syncEffect :: "picker \<Rightarrow> picker" where
  "syncEffect s =
     (if mounted s then
        (let index = (case selectedValue s of
                        Some v \<Rightarrow> indexOf (allValues (values_prop s)) v
                      | None \<Rightarrow> 0)
         in if index \<noteq> - 1
            then (let scrollPosition = of_int index * itemHeight
                  in s\<lparr>scrollTop := scrollPosition\<rparr>)
            else s)
      else s)"

text \<open>
  \<^verbatim>\<open>handleScroll\<close>, lines 33 to 51. The entry read at \<open>index\<close> is a string or a
  number, so it differs from a \<^verbatim>\<open>null\<close> selectedValue whatever it is.
\<close>

definition handleScroll :: "picker \<Rightarrow> picker" where
  "handleScroll s =
     (if \<not> mounted s then s
      else
        (let containerHeight = offsetHeight s;
             centerPosition = fl (scrollTop s + containerHeight / 2);
             index = js_round (centerPosition / itemHeight)
         in if 0 \<le> index \<and> index < int (length (allValues (values_prop s)))
            then (let v = allValues (values_prop s) ! nat index
                  in if Some v \<noteq> selectedValue s
                     then (if v = Str ''-'' then onValueChange None s
                           else onValueChange (Some v) s)
                     else s)
            else s))"

text \<open>The platform's timers: \<^verbatim>\<open>clearTimeout\<close> of an identifier (or of undefined) and
  \<^verbatim>\<open>setTimeout\<close>, whose result the listener stores in \<^verbatim>\<open>scrollTimeout\<close>.\<close>

definition clearTimeout :: "nat option \<Rightarrow> picker \<Rightarrow> picker" where
  "clearTimeout t s =
     (case t of None \<Rightarrow> s | Some i \<Rightarrow> s\<lparr>timers := removeAll i (timers s)\<rparr>)"

definition setTimeout :: "picker \<Rightarrow> picker" where
  "setTimeout s =
     s\<lparr>timers := timers s @ [fresh s], scrollTimeout := Some (fresh s),
       fresh := Suc (fresh s)\<rparr>"

text \<open>The listener \<^verbatim>\<open>onScroll\<close>, lines 59 to 78, up to the scheduling of the
  callback.\<close>

definition onScroll :: "picker \<Rightarrow> picker" where
  "onScroll s = setTimeout (clearTimeout (scrollTimeout s) (s\<lparr>isScrolling := True\<rparr>))"

text \<open>
  The callback the listener schedules, lines 63 to 76. It reads the element the effect
  captured (\<^verbatim>\<open>scrollElement\<close>), not \<^verbatim>\<open>scrollRef.current\<close>.
\<close>

definition snap :: "picker \<Rightarrow> picker" where
  "snap s =
     (let containerHeight = offsetHeight s;
          centerPosition = fl (scrollTop s + containerHeight / 2);
          index = js_round (centerPosition / itemHeight);
          targetScrollTop = of_int index * itemHeight
      in scrollTo_smooth targetScrollTop s)"

definition timeoutCallback :: "picker \<Rightarrow> picker" where
  "timeoutCallback s = snap ((handleScroll s)\<lparr>isScrolling := False\<rparr>)"

text \<open>\<^verbatim>\<open>handleItemClick\<close>, lines 88 to 103.\<close>

definition handleItemClick :: "val \<Rightarrow> picker \<Rightarrow> picker" where
  "handleItemClick v s =
     (let s1 = (if v = Str ''-'' then onValueChange None s else onValueChange (Some v) s)
      in if mounted s1
         then (let index = indexOf (allValues (values_prop s1)) v;
                   scrollPosition = of_int index * itemHeight
               in scrollTo_smooth scrollPosition s1)
         else s1)"

text \<open>
  The listener effect of lines 53 to 86: its cleanup clears the timer the variable
  holds, and running it again declares a new, undefined \<^verbatim>\<open>scrollTimeout\<close>. There
  is a listener, and so a cleanup, only when the element exists.
\<close>

definition cleanup :: "picker \<Rightarrow> picker" where
  "cleanup s = (if mounted s then clearTimeout (scrollTimeout s) s else s)"

definition subscribe :: "picker \<Rightarrow> picker" where
  "subscribe s = s\<lparr>scrollTimeout := None\<rparr>"

text \<open>
  A render with the props \<open>vs\<close> and \<open>sel\<close>. \<^verbatim>\<open>allValues\<close> is a new array in every
  render, so both effects have a changed dependency each time: the listener effect's
  cleanup runs, then the sync effect, then the listener effect.
\<close>

definition render :: "val list \<Rightarrow> val option \<Rightarrow> picker \<Rightarrow> picker" where
  "render vs sel s = subscribe (syncEffect ((cleanup s)\<lparr>values_prop := vs, selectedValue := sel\<rparr>))"

text \<open>
  What reaches the component. The platform reports an offset change through the
  \<^verbatim>\<open>scroll\<close> event of the element, whatever moved it: a gesture of the user or a
  position the component itself has set. The \<open>origin\<close> of an event records which; the
  listener of the source takes no argument and reads no flag, so \<open>step\<close> runs
  \<open>onScroll\<close> for both. \<open>Timeout t\<close> is the platform firing the pending timer \<open>t\<close>,
  \<open>Click v\<close> a click on the button of entry \<open>v\<close>. \<open>Render vs sel\<close> is a render of the
  picker with these props and the run of its effects: the parent passing new props, or
  the render that follows a change of the picker's own \<^verbatim>\<open>isScrolling\<close> state, with
  the props as they were. When renders happen is up to the framework, so they are events
  of their own rather than part of the handlers.
\<close>

datatype origin = User | Programmatic

datatype event =
    Scroll origin rat
  | Timeout nat
  | Click val
  | Render "val list" "val option"

fun step :: "event \<Rightarrow> picker \<Rightarrow> picker" where
  "step (Scroll by_whom p) s = (if mounted s then onScroll (s\<lparr>scrollTop := p\<rparr>) else s)"
| "step (Timeout t) s =
     (if t \<in> set (timers s) then timeoutCallback (s\<lparr>timers := removeAll t (timers s)\<rparr>)
      else s)"
| "step (Click v) s = handleItemClick v s"
| "step (Render vs sel) s = render vs sel s"

definition run :: "picker \<Rightarrow> event list \<Rightarrow> picker" where
  "run s evs = foldl (\<lambda>st e. step e st) s evs"

text \<open>The picker as mounted with given props, on an element of height \<open>h\<close> at offset 0.\<close>

definition mount :: "val list \<Rightarrow> val option \<Rightarrow> rat \<Rightarrow> picker" where
  "mount vs sel h =
     render vs sel
       \<lparr>values_prop = vs, selectedValue = sel, mounted = True, scrollTop = 0,
        offsetHeight = h, isScrolling = False, scrollTimeout = None, timers = [],
        fresh = 0, calls = [], scrolls = []\<rparr>"

text \<open>
  At most one timer is pending, and it is the one the variable \<^verbatim>\<open>scrollTimeout\<close>
  holds.
\<close>

definition pending_ok :: "picker \<Rightarrow> bool" where
  "pending_ok s = (timers s = [] \<or> map Some (timers s) = [scrollTimeout s])"

text \<open>A run of scroll events, each with its origin and the offset it reports.\<close>

definition burst :: "(origin \<times> rat) list \<Rightarrow> event list" where
  "burst wps = map (\<lambda>(w, p). Scroll w p) wps"

section \<open>WeeklyTriggerTrends: grouping the month's reports by week\<close>

text \<open>
  A \<^verbatim>\<open>Date\<close> as \<^verbatim>\<open>processReports\<close> reads it: through \<^verbatim>\<open>getFullYear()\<close>,
  \<^verbatim>\<open>getMonth()\<close> and \<^verbatim>\<open>getDate()\<close>. A report holds the date that
  \<^verbatim>\<open>new Date(report.date)\<close> gives and the four trigger levels; \<^verbatim>\<open>processReports\<close>
  reads no other field. A report whose date does not parse has NaN behind every getter,
  fails the month test and is dropped by the filter; the model leaves such reports out.
\<close>

record jsdate =
  getFullYear :: int
  getMonth :: nat
  getDate :: nat

record MigraineReport =
  date :: jsdate
  hydration :: rat
  stress :: rat
  caffeine :: rat
  screenTime :: rat

text \<open>A WeekData; \<open>sleep\<close> is \<open>None\<close> when the number is NaN.\<close>

record WeekData =
  week :: string
  hydration :: rat
  stress :: rat
  caffeine :: rat
  screenTime :: rat
  sleep :: "rat option"

text \<open>The number to string conversion of a template literal, for a natural number:
  its decimal digits.\<close>

definition digit_of :: "nat \<Rightarrow> char" where
  "digit_of d = char_of (48 + d)"

fun string_of_nat :: "nat \<Rightarrow> string" where
  "string_of_nat n =
     (if n < 10 then [digit_of n] else string_of_nat (n div 10) @ [digit_of (n mod 10)])"

declare string_of_nat.simps [simp del]

text \<open>
  \<^verbatim>\<open>parseInt\<close> on a string without leading blanks or sign: the number its leading
  decimal digits spell, or NaN (\<open>None\<close>) when it starts with no digit.
\<close>

definition is_digit :: "char \<Rightarrow> bool" where
  "is_digit c = (48 \<le> (of_char c :: nat) \<and> (of_char c :: nat) \<le> 57)"

definition digit_val :: "char \<Rightarrow> nat" where
  "digit_val c = of_char c - 48"

definition parseInt :: "string \<Rightarrow> nat option" where
  "parseInt str =
     (let ds = takeWhile is_digit str
      in if ds = [] then None else Some (foldl (\<lambda>acc c. acc * 10 + digit_val c) 0 ds))"

text \<open>\<^verbatim>\<open>str.split(c)\<close> for a one-character separator.\<close>

fun split_on :: "char \<Rightarrow> string \<Rightarrow> string list" where
  "split_on c [] = [[]]"
| "split_on c (x # xs) =
     (if x = c then [] # split_on c xs
      else (case split_on c xs of [] \<Rightarrow> [[x]] | w # ws \<Rightarrow> (x # w) # ws))"

text \<open>\<^verbatim>\<open>Math.ceil(dayOfMonth / 7)\<close> and the key \<^verbatim>\<open>`Week ${weekNum}`\<close>.\<close>

definition weekNum :: "MigraineReport \<Rightarrow> nat" where
  "weekNum report = (let dayOfMonth = getDate (date report) in nat \<lceil>rat_of_nat dayOfMonth / 7\<rceil>)"

definition weekKey :: "nat \<Rightarrow> string" where
  "weekKey n = ''Week '' @ string_of_nat n"

text \<open>\<^verbatim>\<open>parseInt(week.split(" ")[1])\<close>; a missing second part is undefined, which
  parses to NaN.\<close>

definition weekNumOfKey :: "string \<Rightarrow> nat option" where
  "weekNumOfKey wk = (case split_on CHR '' '' wk of a # b # _ \<Rightarrow> parseInt b | _ \<Rightarrow> None)"

text \<open>
  \<^verbatim>\<open>weekGroups\<close> is an object with string keys, none of them an array index, so
  \<^verbatim>\<open>Object.entries\<close> lists it in the order the keys were first set: an association
  list. One round of the \<^verbatim>\<open>forEach\<close> appends the report to the list under its key,
  after making an empty list for a key not yet there.
\<close>

fun push_report :: "string \<Rightarrow> MigraineReport \<Rightarrow> (string \<times> MigraineReport list) list
    \<Rightarrow> (string \<times> MigraineReport list) list" where
  "push_report k r [] = [(k, [r])]"
| "push_report k r ((k', rs) # g) =
     (if k' = k then (k', rs @ [r]) # g else (k', rs) # push_report k r g)"

definition weekGroups :: "MigraineReport list \<Rightarrow> (string \<times> MigraineReport list) list" where
  "weekGroups monthReports = foldl (\<lambda>g report. push_report (weekKey (weekNum report)) report g) [] monthReports"

text \<open>\<^verbatim>\<open>reports.reduce((sum, r) => sum + (r.f || 5), 0) / reports.length\<close>: a level of 0
  counts as 5; every addition and the division give a double.\<close>

definition average :: "(MigraineReport \<Rightarrow> rat) \<Rightarrow> MigraineReport list \<Rightarrow> rat" where
  "average f reports =
     fl (foldl (\<lambda>sum r. fl (sum + (if f r = 0 then 5 else f r))) 0 reports
         / of_nat (length reports))"

text \<open>
  \<^verbatim>\<open>parseFloat(x.toFixed(1))\<close>: \<^verbatim>\<open>toFixed\<close> prints the multiple of one tenth
  nearest to the double \<open>x\<close>, the larger in magnitude of two equally near ones. The
  model keeps that decimal; \<^verbatim>\<open>parseFloat\<close> reads it back as the double nearest to it.
\<close>

definition toFixed1 :: "rat \<Rightarrow> rat" where
  "toFixed1 x =
     (if x < 0 then - (of_int \<lfloor>- x * 10 + 1 / 2\<rfloor> / 10) else of_int \<lfloor>x * 10 + 1 / 2\<rfloor> / 10)"

text \<open>
  The simulated sleep level of lines 151 to 153, NaN when the week number is. Product
  and sum are exact here; of the doubles the code computes for the week numbers of a
  month, \<^verbatim>\<open>toFixed(1)\<close> prints the same decimals.
\<close>

definition avgSleep :: "nat option \<Rightarrow> rat option" where
  "avgSleep wn =
     (case wn of
        None \<Rightarrow> None
      | Some n \<Rightarrow>
          (let baseSleep = 7 / 2;
               improvement = (of_nat n - 1) * (4 / 5)
           in Some (min (baseSleep + improvement) (15 / 2))))"

definition weekEntry :: "string \<times> MigraineReport list \<Rightarrow> WeekData" where
  "weekEntry e =
     (case e of (wk, reports) \<Rightarrow>
        (let wn = weekNumOfKey wk
         in \<lparr>week = wk,
             hydration = toFixed1 (average MigraineReport.hydration reports),
             stress = toFixed1 (average MigraineReport.stress reports),
             caffeine = toFixed1 (average MigraineReport.caffeine reports),
             screenTime = toFixed1 (average MigraineReport.screenTime reports),
             sleep = map_option toFixed1 (avgSleep wn)\<rparr>))"

text \<open>
  The comparator of the sort, \<^verbatim>\<open>weekNumA - weekNumB\<close>; a NaN result counts as 0.
  \<^verbatim>\<open>Array.prototype.sort\<close> is stable: insertion from the right, each entry going
  before the first one it does not compare greater than.
\<close>

definition compareWeeks :: "WeekData \<Rightarrow> WeekData \<Rightarrow> int" where
  "compareWeeks a b =
     (case (weekNumOfKey (week a), weekNumOfKey (week b)) of
        (Some weekNumA, Some weekNumB) \<Rightarrow> int weekNumA - int weekNumB
      | _ \<Rightarrow> 0)"

fun insert_sorted :: "('a \<Rightarrow> 'a \<Rightarrow> int) \<Rightarrow> 'a \<Rightarrow> 'a list \<Rightarrow> 'a list" where
  "insert_sorted cmp x [] = [x]"
| "insert_sorted cmp x (y # ys) =
     (if cmp x y \<le> 0 then x # y # ys else y # insert_sorted cmp x ys)"

definition sort_with :: "('a \<Rightarrow> 'a \<Rightarrow> int) \<Rightarrow> 'a list \<Rightarrow> 'a list" where
  "sort_with cmp xs = foldr (insert_sorted cmp) xs []"

text \<open>
  \<^verbatim>\<open>processReports\<close> with the current date as a parameter. \<open>None\<close> is the return
  without \<^verbatim>\<open>setWeeklyData\<close>, \<open>Some\<close> holds the list it is called with.
\<close>

definition monthReports :: "jsdate \<Rightarrow> MigraineReport list \<Rightarrow> MigraineReport list" where
  "monthReports now reports =
     filter (\<lambda>report. getMonth (date report) = getMonth now
                      \<and> getFullYear (date report) = getFullYear now) reports"

definition processReports :: "jsdate \<Rightarrow> MigraineReport list \<Rightarrow> WeekData list option" where
  "processReports now reports =
     (if monthReports now reports = [] then None
      else Some (sort_with compareWeeks (map weekEntry (weekGroups (monthReports now reports)))))"

text \<open>The entry of week \<open>w\<close> computed from all reports of that week, for the proofs.\<close>

definition weekData :: "MigraineReport list \<Rightarrow> nat \<Rightarrow> WeekData" where
  "weekData mr w = weekEntry (weekKey w, filter (\<lambda>r. weekNum r = w) mr)"

text \<open>
  Two small inputs, for evaluating the pipeline: four reports read on 20 November 2025,
  one of them from October and one with a hydration of 0, and two reports read on
  25 January 2026.
\<close>

definition november_reports :: "MigraineReport list" where
  "november_reports =
     [\<lparr>date = \<lparr>getFullYear = 2025, getMonth = 10, getDate = 15\<rparr>,
        hydration = 3, stress = 8, caffeine = 7, screenTime = 8\<rparr>,
      \<lparr>date = \<lparr>getFullYear = 2025, getMonth = 10, getDate = 2\<rparr>,
        hydration = 7, stress = 4, caffeine = 4, screenTime = 5\<rparr>,
      \<lparr>date = \<lparr>getFullYear = 2025, getMonth = 9, getDate = 30\<rparr>,
        hydration = 5, stress = 6, caffeine = 5, screenTime = 6\<rparr>,
      \<lparr>date = \<lparr>getFullYear = 2025, getMonth = 10, getDate = 16\<rparr>,
        hydration = 0, stress = 6, caffeine = 5, screenTime = 6\<rparr>]"

definition november_20 :: jsdate where
  "november_20 = \<lparr>getFullYear = 2025, getMonth = 10, getDate = 20\<rparr>"

definition january_reports :: "MigraineReport list" where
  "january_reports =
     [\<lparr>date = \<lparr>getFullYear = 2026, getMonth = 0, getDate = 21\<rparr>,
        hydration = 5, stress = 6, caffeine = 5, screenTime = 6\<rparr>,
      \<lparr>date = \<lparr>getFullYear = 2026, getMonth = 0, getDate = 7\<rparr>,
        hydration = 7, stress = 4, caffeine = 4, screenTime = 5\<rparr>]"

definition january_25 :: jsdate where
  "january_25 = \<lparr>getFullYear = 2026, getMonth = 0, getDate = 25\<rparr>"

section \<open>The display sequence\<close>

text \<open>
  C5. For every input list, the empty one included, the display sequence is the sentinel
  followed by the input values in reverse order: it is one longer than the input, its
  entry 0 is the sentinel, the empty input gives the sentinel alone, and the input
  10, 20, 30 gives sentinel, 30, 20, 10, where 20 is found at index 2.
\<close>

theorem allValues_sentinel_then_reversed:
  "allValues vs = Str ''-'' # rev vs
   \<and> length (allValues vs) = length vs + 1
   \<and> valueAt (allValues vs) 0 = Some (Str ''-'')
   \<and> allValues [] = [Str ''-'']
   \<and> allValues [Num 10, Num 20, Num 30] = [Str ''-'', Num 30, Num 20, Num 10]
   \<and> indexOf (allValues [Num 10, Num 20, Num 30]) (Num 20) = 2"
  by (simp add: allValues_def reversedValues_def valueAt_def indexOf_def)

section \<open>Rounding to a double\<close>

lemma floor_rat_numeral:
  "\<lfloor>numeral a / numeral b :: rat\<rfloor> = numeral a div numeral b"
  by (metis floor_divide_of_int_eq of_int_numeral)

lemma round_even_error: "\<bar>of_int (round_even y) - y\<bar> \<le> 1 / 2"
proof -
  have f: "of_int \<lfloor>y\<rfloor> \<le> y" "y < of_int \<lfloor>y\<rfloor> + 1" by linarith+
  have "round_even y = \<lfloor>y\<rfloor> \<and> y - of_int \<lfloor>y\<rfloor> \<le> 1 / 2
      \<or> round_even y = \<lfloor>y\<rfloor> + 1 \<and> 1 / 2 \<le> y - of_int \<lfloor>y\<rfloor>"
    unfolding round_even_def Let_def by (auto simp: not_less)
  then show ?thesis
  proof
    assume "round_even y = \<lfloor>y\<rfloor> \<and> y - of_int \<lfloor>y\<rfloor> \<le> 1 / 2"
    then have r: "round_even y = \<lfloor>y\<rfloor>" and b: "y - of_int \<lfloor>y\<rfloor> \<le> 1 / 2" by simp_all
    show ?thesis unfolding r abs_le_iff using f b by (intro conjI; linarith)
  next
    assume "round_even y = \<lfloor>y\<rfloor> + 1 \<and> 1 / 2 \<le> y - of_int \<lfloor>y\<rfloor>"
    then have r: "round_even y = \<lfloor>y\<rfloor> + 1" and b: "1 / 2 \<le> y - of_int \<lfloor>y\<rfloor>" by simp_all
    show ?thesis unfolding r abs_le_iff using f b by (intro conjI; simp; linarith)
  qed
qed

lemma round_even_of_int: "round_even (of_int n) = n"
  by (simp add: round_even_def Let_def)

lemma bitlen_powi:
  assumes "0 < p"
  shows "2 powi (bitlen p - 1) \<le> (of_int p :: rat)" and "(of_int p :: rat) < 2 powi bitlen p"
proof -
  from assms have b: "1 \<le> bitlen p" by (auto simp: bitlen_alt_def)
  from bitlen_bounds[OF assms] have "2 ^ nat (bitlen p - 1) \<le> p" "p < 2 ^ nat (bitlen p)"
    by simp_all
  then have "(of_int (2 ^ nat (bitlen p - 1)) :: rat) \<le> of_int p"
    "(of_int p :: rat) < of_int (2 ^ nat (bitlen p))"
    by (simp_all only: of_int_le_iff of_int_less_iff)
  with b show "2 powi (bitlen p - 1) \<le> (of_int p :: rat)" "(of_int p :: rat) < 2 powi bitlen p"
    by (simp_all add: power_int_def)
qed

lemma expo_bounds:
  assumes "x \<noteq> 0"
  shows "2 ^ 52 * 2 powi expo x \<le> \<bar>x\<bar>" and "\<bar>x\<bar> < 2 ^ 53 * 2 powi expo x"
proof -
  obtain p q where pq: "quotient_of \<bar>x\<bar> = (p, q)" by (cases "quotient_of \<bar>x\<bar>")
  then have q: "0 < q" and x: "\<bar>x\<bar> = of_int p / of_int q"
    by (simp_all add: quotient_of_denom_pos quotient_of_div)
  have "0 < \<bar>x\<bar>" using assms by simp
  with x q have p: "0 < p"
    by (simp add: zero_less_divide_iff)
  define d where "d = bitlen p - bitlen q - 53"
  note bp = bitlen_powi[OF p] and bq = bitlen_powi[OF q]
  have qpos: "0 < (of_int q :: rat)" using q by simp
  have "bitlen p - 1 = 52 + (d + bitlen q)" by (simp add: d_def)
  then have e1: "(2 :: rat) powi (bitlen p - 1) = 2 ^ 52 * (2 powi d * 2 powi bitlen q)"
    by (simp add: power_int_add)
  have "bitlen p = 54 + (d + (bitlen q - 1))" by (simp add: d_def)
  then have "(2 :: rat) powi bitlen p = 2 powi (54 + (d + (bitlen q - 1)))" by simp
  also have "\<dots> = 2 ^ 54 * (2 powi d * 2 powi (bitlen q - 1))"
    by (simp only: power_int_add[of "2 :: rat", simplified] power_int_numeral)
  finally have e2: "(2 :: rat) powi bitlen p = 2 ^ 54 * (2 powi d * 2 powi (bitlen q - 1))" .
  have dpos: "0 < (2 :: rat) powi d" by simp
  have lo: "2 ^ 52 * 2 powi d < \<bar>x\<bar>"
  proof -
    have "2 ^ 52 * 2 powi d * of_int q < (2 ^ 52 * 2 powi d * 2 powi bitlen q :: rat)"
      using bq(2) dpos by simp
    also have "\<dots> \<le> of_int p" using bp(1) unfolding e1 by (simp add: mult.assoc)
    finally show ?thesis unfolding x using qpos by (simp add: pos_less_divide_eq)
  qed
  have hi: "\<bar>x\<bar> < 2 ^ 54 * 2 powi d"
  proof -
    have "of_int p < (2 ^ 54 * 2 powi d * 2 powi (bitlen q - 1) :: rat)"
      using bp(2) unfolding e2 by (simp add: mult.assoc)
    also have "\<dots> \<le> 2 ^ 54 * 2 powi d * of_int q"
      using bq(1) dpos by simp
    finally show ?thesis unfolding x using qpos by (simp add: pos_divide_less_eq)
  qed
  have e: "expo x = (if 2 ^ 53 \<le> \<bar>x\<bar> / 2 powi d then d + 1 else d)"
    by (simp add: expo_def pq d_def Let_def)
  have s: "(2 :: rat) powi (d + 1) = 2 * 2 powi d"
    by (simp add: power_int_add_1')
  show "2 ^ 52 * 2 powi expo x \<le> \<bar>x\<bar>"
  proof (cases "2 ^ 53 \<le> \<bar>x\<bar> / 2 powi d")
    case True
    then have "2 ^ 53 * 2 powi d \<le> \<bar>x\<bar>" using dpos by (simp add: pos_le_divide_eq)
    with True show ?thesis by (simp add: e s)
  next
    case False
    with lo show ?thesis by (simp add: e)
  qed
  show "\<bar>x\<bar> < 2 ^ 53 * 2 powi expo x"
  proof (cases "2 ^ 53 \<le> \<bar>x\<bar> / 2 powi d")
    case True
    with hi show ?thesis by (simp add: e s)
  next
    case False
    then have "\<bar>x\<bar> < 2 ^ 53 * 2 powi d" using dpos by (simp add: pos_le_divide_eq not_le)
    with False show ?thesis by (simp add: e)
  qed
qed

lemma fl_error: "\<bar>fl x - x\<bar> \<le> \<bar>x\<bar> / 2 ^ 53"
proof (cases "x = 0")
  case True
  then show ?thesis by (simp add: fl_def)
next
  case False
  let ?u = "(2 :: rat) powi expo x"
  have u: "0 < ?u" by simp
  have "fl x - x = (of_int (round_even (x / ?u)) - x / ?u) * ?u"
    using False by (simp add: fl_def algebra_simps)
  then have "\<bar>fl x - x\<bar> = \<bar>of_int (round_even (x / ?u)) - x / ?u\<bar> * ?u"
    using u by (simp add: abs_mult)
  also have "\<dots> \<le> 1 / 2 * ?u"
    using round_even_error[of "x / ?u"] u by (intro mult_right_mono) simp_all
  also have "\<dots> \<le> \<bar>x\<bar> / 2 ^ 53"
    using expo_bounds(1)[OF False] by simp
  finally show ?thesis .
qed

lemma fl_representable:
  assumes "x = of_int k * 2 powi j" and "\<bar>k\<bar> < 2 ^ 53"
  shows "fl x = x"
proof (cases "x = 0")
  case True
  then show ?thesis by (simp add: fl_def)
next
  case False
  define e where "e = expo x"
  have je: "e \<le> j"
  proof (rule ccontr)
    assume "\<not> e \<le> j"
    then have "j + 1 \<le> e" by simp
    then have "(2 :: rat) powi (j + 1) \<le> 2 powi e"
      by (intro power_int_increasing) simp_all
    then have "2 ^ 52 * (2 * 2 powi j) \<le> (2 ^ 52 * 2 powi e :: rat)"
      by (simp add: power_int_add_1')
    also have "\<dots> \<le> \<bar>x\<bar>" unfolding e_def by (rule expo_bounds(1)[OF False])
    also have "\<dots> = of_int \<bar>k\<bar> * 2 powi j" by (simp add: assms(1) abs_mult)
    finally have "2 ^ 53 \<le> (of_int \<bar>k\<bar> :: rat)" by simp
    then have "(of_int (2 ^ 53) :: rat) \<le> of_int \<bar>k\<bar>" by simp
    then have "2 ^ 53 \<le> \<bar>k\<bar>" by (simp only: of_int_le_iff)
    with assms(2) show False by simp
  qed
  have p1: "(2 :: rat) powi j = 2 powi (j - e) * 2 powi e"
    by (simp flip: power_int_add)
  have p2: "(2 :: rat) powi (j - e) = of_int (2 ^ nat (j - e))"
    using je by (simp add: power_int_def)
  have xe: "x = of_int (k * 2 ^ nat (j - e)) * 2 powi e"
    unfolding assms(1) p1 p2 by simp
  then have "x / 2 powi e = of_int (k * 2 ^ nat (j - e))"
    by simp
  then have "round_even (x / 2 powi e) = k * 2 ^ nat (j - e)"
    by (simp only: round_even_of_int)
  with xe have "of_int (round_even (x / 2 powi e)) * 2 powi e = x"
    by simp
  with False show ?thesis unfolding fl_def e_def by simp
qed

lemma fl_numeral: "(numeral n :: int) < 2 ^ 53 \<Longrightarrow> fl (numeral n) = numeral n"
  using fl_representable[of "numeral n" "numeral n" 0] by simp

text \<open>Evaluation need not search for the exponent of an integer below 2^53.\<close>

lemma fl_integer [code]:
  "fl x =
     (case quotient_of x of (p, q) \<Rightarrow>
        if q = 1 \<and> \<bar>p\<bar> < 2 ^ 53 then x
        else if x = 0 then 0
        else of_int (round_even (x / 2 powi expo x)) * 2 powi expo x)"
proof -
  obtain p q where pq: "quotient_of x = (p, q)" by (cases "quotient_of x")
  show ?thesis
  proof (cases "q = 1 \<and> \<bar>p\<bar> < 2 ^ 53")
    case True
    from quotient_of_div[OF pq] True have "x = of_int p * 2 powi 0" by simp
    with True have "fl x = x" by (intro fl_representable[of x p 0]) simp_all
    with True pq show ?thesis by simp
  next
    case False
    with pq show ?thesis by (auto simp: fl_def)
  qed
qed

section \<open>The index mapper\<close>

lemmas handler_defs =
  onValueChange_def scrollTo_smooth_def syncEffect_def handleScroll_def clearTimeout_def
  setTimeout_def onScroll_def snap_def timeoutCallback_def handleItemClick_def cleanup_def
  subscribe_def render_def

lemmas eval_defs =
  handler_defs run_def mount_def allValues_def reversedValues_def indexOf_def itemHeight_def
  js_round_def Let_def floor_rat_numeral fl_numeral

lemma indexOf_from_notin: "v \<notin> set xs \<Longrightarrow> indexOf_from xs v k = - 1"
  by (induction xs arbitrary: k) auto

lemma indexOf_from_nth:
  "distinct xs \<Longrightarrow> i < length xs \<Longrightarrow> indexOf_from xs (xs ! i) k = k + int i"
proof (induction xs arbitrary: i k)
  case Nil
  then show ?case by simp
next
  case (Cons x xs)
  show ?case
  proof (cases i)
    case 0
    then show ?thesis by simp
  next
    case (Suc j)
    with Cons.prems have "xs ! j \<in> set xs" "x \<notin> set xs" by auto
    then have "x \<noteq> xs ! j" by auto
    with Cons Suc show ?thesis by simp
  qed
qed

lemma indexOf_from_in:
  "v \<in> set xs \<Longrightarrow> \<exists>j < length xs. indexOf_from xs v k = k + int j \<and> xs ! j = v"
proof (induction xs arbitrary: k)
  case Nil
  then show ?case by simp
next
  case (Cons x xs)
  show ?case
  proof (cases "x = v")
    case True
    then show ?thesis by auto
  next
    case False
    with Cons.prems have "v \<in> set xs" by simp
    from Cons.IH[OF this, of "k + 1"] obtain j where
      "j < length xs" "indexOf_from xs v (k + 1) = k + 1 + int j" "xs ! j = v" by blast
    with False show ?thesis by (intro exI[of _ "Suc j"]) simp
  qed
qed

lemma indexOf_found_iff: "indexOf xs v \<noteq> - 1 \<longleftrightarrow> v \<in> set xs"
proof
  assume "indexOf xs v \<noteq> - 1"
  then show "v \<in> set xs"
    using indexOf_from_notin[of v xs 0] by (auto simp: indexOf_def)
next
  assume "v \<in> set xs"
  from indexOf_from_in[OF this, of 0] show "indexOf xs v \<noteq> - 1"
    by (auto simp: indexOf_def)
qed

lemma distinct_allValues:
  "distinct vs \<Longrightarrow> Str ''-'' \<notin> set vs \<Longrightarrow> distinct (allValues vs)"
  by (simp add: allValues_def reversedValues_def)

text \<open>
  C6. When the input values are pairwise different and none of them is the sentinel
  string, index and entry determine each other: every valid index i holds an entry whose
  indexOf is i, and every entry of the display sequence is read back at its indexOf.
\<close>

theorem index_mapper_round_trip:
  assumes "distinct vs" and "Str ''-'' \<notin> set vs"
  shows "(\<forall>i. 0 \<le> i \<and> i < int (length (allValues vs)) \<longrightarrow>
            (\<exists>v. valueAt (allValues vs) i = Some v \<and> indexOf (allValues vs) v = i))
       \<and> (\<forall>v \<in> set (allValues vs).
            valueAt (allValues vs) (indexOf (allValues vs) v) = Some v)"
proof (intro conjI allI impI ballI)
  fix i :: int
  assume i: "0 \<le> i \<and> i < int (length (allValues vs))"
  from assms have d: "distinct (allValues vs)" by (rule distinct_allValues)
  from i have "nat i < length (allValues vs)" by linarith
  from indexOf_from_nth[OF d this, of 0] i
  have "indexOf (allValues vs) (allValues vs ! nat i) = i"
    by (simp add: indexOf_def)
  with i show "\<exists>v. valueAt (allValues vs) i = Some v \<and> indexOf (allValues vs) v = i"
    by (simp add: valueAt_def)
next
  fix v
  assume "v \<in> set (allValues vs)"
  from indexOf_from_in[OF this, of 0] obtain j where
    "j < length (allValues vs)" "indexOf (allValues vs) v = int j" "allValues vs ! j = v"
    by (auto simp: indexOf_def)
  then show "valueAt (allValues vs) (indexOf (allValues vs) v) = Some v"
    by (simp add: valueAt_def)
qed

theorem index_mapper_round_trip_witness:
  "distinct [Num 10, Num 20, Num 30] \<and> Str ''-'' \<notin> set [Num 10, Num 20, Num 30]
   \<and> valueAt (allValues [Num 10, Num 20, Num 30]) 2 = Some (Num 20)
   \<and> indexOf (allValues [Num 10, Num 20, Num 30]) (Num 20) = 2
   \<and> valueAt (allValues [Num 10, Num 20, Num 30])
        (indexOf (allValues [Num 10, Num 20, Num 30]) (Num 10)) = Some (Num 10)"
  using index_mapper_round_trip[of "[Num 10, Num 20, Num 30]"]
  by (simp add: allValues_def reversedValues_def valueAt_def indexOf_def)

section \<open>The debounce timer\<close>

lemma run_Nil: "run s [] = s"
  by (simp add: run_def)

lemma run_snoc: "run s (evs @ [e]) = step e (run s evs)"
  by (simp add: run_def)

lemma run_Cons: "run s (e # evs) = run (step e s) evs"
  by (simp add: run_def)

lemma mounted_step: "mounted (step e s) = mounted s"
  by (cases e) (simp_all add: handler_defs Let_def split: option.splits)

lemma mounted_run: "mounted (run s evs) = mounted s"
  by (induction evs rule: rev_induct) (simp_all add: run_Nil run_snoc mounted_step)

lemma timers_timeoutCallback: "timers (timeoutCallback s) = timers s"
  by (simp add: handler_defs Let_def)

lemma scrollTimeout_timeoutCallback: "scrollTimeout (timeoutCallback s) = scrollTimeout s"
  by (simp add: handler_defs Let_def)

lemma pending_ok_step:
  assumes "mounted s" and "pending_ok s"
  shows "pending_ok (step e s)"
proof (cases e)
  case (Scroll w p)
  with assms show ?thesis
    by (auto simp: pending_ok_def onScroll_def setTimeout_def clearTimeout_def split: option.splits)
next
  case (Timeout t)
  with assms show ?thesis
    by (auto simp: pending_ok_def timers_timeoutCallback scrollTimeout_timeoutCallback)
next
  case (Click v)
  then show ?thesis
    using assms by (auto simp: pending_ok_def handleItemClick_def onValueChange_def scrollTo_smooth_def Let_def)
next
  case (Render vs sel)
  with assms show ?thesis
    by (auto simp: pending_ok_def render_def subscribe_def syncEffect_def cleanup_def
        clearTimeout_def Let_def split: option.splits)
qed

lemma pending_ok_run:
  assumes "mounted s" and "pending_ok s"
  shows "pending_ok (run s evs)"
  using assms
  by (induction evs rule: rev_induct) (simp_all add: run_Nil run_snoc pending_ok_step mounted_run)

lemma pending_ok_length: "pending_ok s \<Longrightarrow> length (timers s) \<le> 1"
  by (auto simp: pending_ok_def)

text \<open>What a scroll event leaves of the state.\<close>

lemma step_Scroll_fields:
  assumes "mounted s" and "pending_ok s"
  shows "timers (step (Scroll w p) s) = [fresh s]"
    and "scrollTop (step (Scroll w p) s) = p"
    and "calls (step (Scroll w p) s) = calls s"
    and "scrolls (step (Scroll w p) s) = scrolls s"
    and "offsetHeight (step (Scroll w p) s) = offsetHeight s"
    and "values_prop (step (Scroll w p) s) = values_prop s"
    and "selectedValue (step (Scroll w p) s) = selectedValue s"
  using assms
  by (auto simp: pending_ok_def onScroll_def setTimeout_def clearTimeout_def split: option.splits)

lemma burst_fields:
  assumes "mounted s" and "pending_ok s" and "wps \<noteq> []"
  shows "(\<exists>t. timers (run s (burst wps)) = [t])
       \<and> scrollTop (run s (burst wps)) = snd (last wps)
       \<and> calls (run s (burst wps)) = calls s
       \<and> scrolls (run s (burst wps)) = scrolls s
       \<and> offsetHeight (run s (burst wps)) = offsetHeight s
       \<and> values_prop (run s (burst wps)) = values_prop s
       \<and> selectedValue (run s (burst wps)) = selectedValue s"
  using assms(3)
proof (induction wps rule: rev_induct)
  case Nil
  then show ?case by simp
next
  case (snoc x xs)
  obtain w p where x: "x = (w, p)" by (cases x)
  let ?s = "run s (burst xs)"
  have m: "mounted ?s" using assms(1) by (simp add: mounted_run)
  have ok: "pending_ok ?s" using assms(1,2) by (rule pending_ok_run)
  have r: "run s (burst (xs @ [x])) = step (Scroll w p) ?s"
    by (simp add: burst_def run_snoc x)
  show ?case
  proof (cases "xs = []")
    case True
    then have "?s = s" by (simp add: burst_def run_Nil)
    with r x step_Scroll_fields[OF assms(1,2), of w p] show ?thesis
      by (simp del: step.simps)
  next
    case False
    with snoc.IH r x step_Scroll_fields[OF m ok, of w p] show ?thesis
      by (simp del: step.simps)
  qed
qed

lemma calls_handleScroll_cong:
  assumes "mounted a = mounted b" "scrollTop a = scrollTop b" "offsetHeight a = offsetHeight b"
    "values_prop a = values_prop b" "selectedValue a = selectedValue b" "calls a = calls b"
  shows "calls (handleScroll a) = calls (handleScroll b)"
  using assms by (simp add: handleScroll_def onValueChange_def Let_def)

lemma calls_handleScroll_length: "length (calls (handleScroll s)) \<le> Suc (length (calls s))"
  by (simp add: handleScroll_def onValueChange_def Let_def)

lemma calls_timeoutCallback: "calls (timeoutCallback s) = calls (handleScroll s)"
  by (simp add: timeoutCallback_def snap_def scrollTo_smooth_def Let_def)

lemma scrolls_timeoutCallback:
  "scrolls (timeoutCallback s) =
     scrolls s @ [of_int (js_round (fl (scrollTop s + offsetHeight s / 2) / itemHeight)) * itemHeight]"
  by (simp add: timeoutCallback_def snap_def scrollTo_smooth_def handleScroll_def
      onValueChange_def Let_def)

text \<open>
  C4. A run of scroll events with no timer firing in between (all of them inside one
  debounce window) leaves exactly one timer pending, each event having cleared the timer
  of the one before. When that timer fires there is one settle: no timer is pending
  after it, so no further timeout does anything; the snap and the callback are computed
  from the offset the last event of the run reported; and the callback is invoked at
  most once. Whatever events arrive, and in whatever order, at most one timer is pending.
\<close>

theorem debounce_single_settle:
  assumes "mounted s" and "pending_ok s" and "wps \<noteq> []"
  shows "(\<exists>t. timers (run s (burst wps)) = [t]
          \<and> timers (step (Timeout t) (run s (burst wps))) = []
          \<and> (\<forall>t'. step (Timeout t') (step (Timeout t) (run s (burst wps)))
                   = step (Timeout t) (run s (burst wps)))
          \<and> scrolls (step (Timeout t) (run s (burst wps))) =
              scrolls s @ [of_int (js_round (fl (snd (last wps) + offsetHeight s / 2) / itemHeight))
                            * itemHeight]
          \<and> calls (step (Timeout t) (run s (burst wps))) =
              calls (handleScroll (s\<lparr>scrollTop := snd (last wps)\<rparr>))
          \<and> length (calls (step (Timeout t) (run s (burst wps)))) \<le> Suc (length (calls s)))
       \<and> length (timers (run s evs)) \<le> 1"
proof (rule conjI)
  let ?s = "run s (burst wps)"
  from burst_fields[OF assms] obtain t where t: "timers ?s = [t]"
    and f: "scrollTop ?s = snd (last wps)" "calls ?s = calls s" "scrolls ?s = scrolls s"
      "offsetHeight ?s = offsetHeight s" "values_prop ?s = values_prop s"
      "selectedValue ?s = selectedValue s"
    by blast
  let ?u = "?s\<lparr>timers := removeAll t (timers ?s)\<rparr>"
  from t have "t \<in> set (timers ?s)" by simp
  then have st: "step (Timeout t) ?s = timeoutCallback ?u"
    by simp
  have m: "mounted ?s = mounted s" by (simp add: mounted_run)
  have 1: "timers (step (Timeout t) ?s) = []"
    unfolding st timers_timeoutCallback using t by simp
  have 2: "\<forall>t'. step (Timeout t') (step (Timeout t) ?s) = step (Timeout t) ?s"
    using 1 by simp
  have 3: "scrolls (step (Timeout t) ?s) =
      scrolls s @ [of_int (js_round (fl (snd (last wps) + offsetHeight s / 2) / itemHeight)) * itemHeight]"
    unfolding st scrolls_timeoutCallback using f by simp
  have 4: "calls (step (Timeout t) ?s) = calls (handleScroll (s\<lparr>scrollTop := snd (last wps)\<rparr>))"
    unfolding st calls_timeoutCallback
    by (rule calls_handleScroll_cong) (simp_all add: f m)
  have 5: "length (calls (step (Timeout t) ?s)) \<le> Suc (length (calls s))"
    unfolding 4 using calls_handleScroll_length[of "s\<lparr>scrollTop := snd (last wps)\<rparr>"] by simp
  from t 1 2 3 4 5
  show "\<exists>t. timers ?s = [t]
          \<and> timers (step (Timeout t) ?s) = []
          \<and> (\<forall>t'. step (Timeout t') (step (Timeout t) ?s) = step (Timeout t) ?s)
          \<and> scrolls (step (Timeout t) ?s) =
              scrolls s @ [of_int (js_round (fl (snd (last wps) + offsetHeight s / 2) / itemHeight))
                            * itemHeight]
          \<and> calls (step (Timeout t) ?s) =
              calls (handleScroll (s\<lparr>scrollTop := snd (last wps)\<rparr>))
          \<and> length (calls (step (Timeout t) ?s)) \<le> Suc (length (calls s))"
    by blast
next
  show "length (timers (run s evs)) \<le> 1"
    using assms(1,2) by (intro pending_ok_length pending_ok_run)
qed


theorem debounce_single_settle_witness:
  "mounted (mount [Num 10, Num 20, Num 30] (Some (Num 30)) 96)
   \<and> pending_ok (mount [Num 10, Num 20, Num 30] (Some (Num 30)) 96)
   \<and> [(User, 10), (User, 40), (User, 44 :: rat)] \<noteq> []
   \<and> (\<exists>t. timers (run (mount [Num 10, Num 20, Num 30] (Some (Num 30)) 96)
               (burst [(User, 10), (User, 40), (User, 44)])) = [t]
         \<and> calls (step (Timeout t) (run (mount [Num 10, Num 20, Num 30] (Some (Num 30)) 96)
               (burst [(User, 10), (User, 40), (User, 44)]))) =
            calls (handleScroll (mount [Num 10, Num 20, Num 30] (Some (Num 30)) 96
                                  \<lparr>scrollTop := 44\<rparr>)))
   \<and> length (timers (run (mount [Num 10, Num 20, Num 30] (Some (Num 30)) 96)
               [Scroll User 10, Click (Num 20), Scroll User 12])) \<le> 1
   \<and> timers (run (mount [Num 10, Num 20, Num 30] (Some (Num 30)) 96)
               (burst [(User, 10), (User, 40), (User, 44)])) = [2]
   \<and> calls (step (Timeout 2) (run (mount [Num 10, Num 20, Num 30] (Some (Num 30)) 96)
               (burst [(User, 10), (User, 40), (User, 44)]))) = [Some (Num 10)]
   \<and> scrolls (step (Timeout 2) (run (mount [Num 10, Num 20, Num 30] (Some (Num 30)) 96)
               (burst [(User, 10), (User, 40), (User, 44)]))) = [96]"
proof -
  let ?s = "mount [Num 10, Num 20, Num 30] (Some (Num 30)) 96"
  have h1: "mounted ?s"
    by (simp add: mount_def render_def subscribe_def syncEffect_def cleanup_def
        clearTimeout_def Let_def)
  have h2: "pending_ok ?s"
    by (simp add: pending_ok_def mount_def render_def subscribe_def syncEffect_def cleanup_def
        clearTimeout_def Let_def)
  have h3: "[(User, 10), (User, 40), (User, 44 :: rat)] \<noteq> []"
    by simp
  from debounce_single_settle[OF h1 h2 h3, of "[Scroll User 10, Click (Num 20), Scroll User 12]"]
  have th: "(\<exists>t. timers (run ?s (burst [(User, 10), (User, 40), (User, 44)])) = [t]
         \<and> calls (step (Timeout t) (run ?s (burst [(User, 10), (User, 40), (User, 44)]))) =
            calls (handleScroll (?s\<lparr>scrollTop := 44\<rparr>)))
     \<and> length (timers (run ?s [Scroll User 10, Click (Num 20), Scroll User 12])) \<le> 1"
    by (simp del: step.simps) blast
  have ev: "timers (run ?s (burst [(User, 10), (User, 40), (User, 44)])) = [2]"
    "calls (step (Timeout 2) (run ?s (burst [(User, 10), (User, 40), (User, 44)])))
       = [Some (Num 10)]"
    "scrolls (step (Timeout 2) (run ?s (burst [(User, 10), (User, 40), (User, 44)]))) = [96]"
    by (simp_all add: eval_defs burst_def floor_rat_numeral)
  from th h1 h2 h3 ev show ?thesis by blast
qed

section \<open>External changes of the selected value\<close>

text \<open>
  C1, as the spec states it, fails. The picker shows 10, 20, 30 with 30 selected. The
  parent selects 20: the sync effect moves the element to offset 64, the scroll event
  reporting that move sets \<^verbatim>\<open>isScrolling\<close>, and the render this causes clears the
  timer. The parent then selects nothing: the sync effect moves the element to offset 0,
  the scroll event reporting that move starts a timer (\<^verbatim>\<open>isScrolling\<close> does not
  change, so no render clears it), and the settle it leads to invokes the callback
  with 20.
\<close>

theorem reposition_event_settles_like_a_user_scroll:
  "scrollTop (run (mount [Num 10, Num 20, Num 30] (Some (Num 30)) 96)
      [Render [Num 10, Num 20, Num 30] (Some (Num 20)), Scroll Programmatic 64,
       Render [Num 10, Num 20, Num 30] (Some (Num 20)),
       Render [Num 10, Num 20, Num 30] None]) = 0
   \<and> timers (run (mount [Num 10, Num 20, Num 30] (Some (Num 30)) 96)
      [Render [Num 10, Num 20, Num 30] (Some (Num 20)), Scroll Programmatic 64,
       Render [Num 10, Num 20, Num 30] (Some (Num 20)),
       Render [Num 10, Num 20, Num 30] None]) = []
   \<and> timers (run (mount [Num 10, Num 20, Num 30] (Some (Num 30)) 96)
      [Render [Num 10, Num 20, Num 30] (Some (Num 20)), Scroll Programmatic 64,
       Render [Num 10, Num 20, Num 30] (Some (Num 20)),
       Render [Num 10, Num 20, Num 30] None, Scroll Programmatic 0]) = [1]
   \<and> calls (run (mount [Num 10, Num 20, Num 30] (Some (Num 30)) 96)
      [Render [Num 10, Num 20, Num 30] (Some (Num 20)), Scroll Programmatic 64,
       Render [Num 10, Num 20, Num 30] (Some (Num 20)),
       Render [Num 10, Num 20, Num 30] None, Scroll Programmatic 0, Timeout 1])
     = [Some (Num 20)]"
  by (simp add: eval_defs floor_rat_numeral)

text \<open>
  C1, amended. A render with a new selected value moves the element to the offset of that
  value, its index times the item height (index 0 for no value), and leaves the offset
  alone when the value is not an entry. The render itself invokes no callback, requests
  no smooth scroll, starts no timer and leaves \<^verbatim>\<open>isScrolling\<close> as it is. The
  listener does not look at the origin of a scroll event: one that reports a position the
  component set is handled exactly as one that reports a gesture.
\<close>

theorem render_repositions_without_callback:
  assumes "mounted s"
  shows "scrollTop (render vs sel s) =
           (case sel of
              None \<Rightarrow> 0
            | Some v \<Rightarrow> if v \<in> set (allValues vs)
                        then of_int (indexOf (allValues vs) v) * itemHeight
                        else scrollTop s)
       \<and> calls (render vs sel s) = calls s
       \<and> scrolls (render vs sel s) = scrolls s
       \<and> set (timers (render vs sel s)) \<subseteq> set (timers s)
       \<and> isScrolling (render vs sel s) = isScrolling s
       \<and> step (Scroll Programmatic p) s = step (Scroll User p) s"
  using assms indexOf_found_iff[of "allValues vs"]
  by (auto simp: render_def subscribe_def syncEffect_def cleanup_def clearTimeout_def Let_def
      split: option.splits)

theorem render_repositions_without_callback_witness:
  "mounted (mount [Num 10, Num 20, Num 30] None 96)
   \<and> scrollTop (render [Num 10, Num 20, Num 30] (Some (Num 20))
        (mount [Num 10, Num 20, Num 30] None 96)) = 2 * itemHeight
   \<and> calls (render [Num 10, Num 20, Num 30] (Some (Num 20))
        (mount [Num 10, Num 20, Num 30] None 96)) = []"
  using render_repositions_without_callback[of "mount [Num 10, Num 20, Num 30] None 96"
     "[Num 10, Num 20, Num 30]" "Some (Num 20)"]
  by (simp add: eval_defs)

section \<open>Settling\<close>

text \<open>
  C7, as the spec states it, fails. The offset 32 - 2^-48 is a double, and so is the
  height 96. The formula of the claim gives round(2.5 - 2^-53) = 2, the entry 20 and the
  target 64. The code adds in doubles: the sum 80 - 2^-48 lies between the doubles
  80 - 2^-46 and 80 and is rounded to 80, so the index is round(2.5) = 3: it resolves the
  entry 10 and requests the scroll to offset 96.
\<close>

theorem settle_index_rounds_the_double_sum:
  "(32 - 1 / 2 ^ 48 :: rat) = of_int (2 ^ 53 - 1) * 2 powi (- 48)
   \<and> \<lfloor>((32 - 1 / 2 ^ 48) + 96 / 2) / 32 + 1 / 2 :: rat\<rfloor> = 2
   \<and> valueAt (allValues [Num 10, Num 20, Num 30]) 2 = Some (Num 20)
   \<and> scrollTop (run (mount [Num 10, Num 20, Num 30] (Some (Num 30)) 96)
        [Scroll User 40, Render [Num 10, Num 20, Num 30] (Some (Num 30)),
         Scroll Programmatic 32, Scroll User (32 - 1 / 2 ^ 48)]) = 32 - 1 / 2 ^ 48
   \<and> calls (run (mount [Num 10, Num 20, Num 30] (Some (Num 30)) 96)
        [Scroll User 40, Render [Num 10, Num 20, Num 30] (Some (Num 30)),
         Scroll Programmatic 32, Scroll User (32 - 1 / 2 ^ 48), Timeout 2]) = [Some (Num 10)]
   \<and> scrolls (run (mount [Num 10, Num 20, Num 30] (Some (Num 30)) 96)
        [Scroll User 40, Render [Num 10, Num 20, Num 30] (Some (Num 30)),
         Scroll Programmatic 32, Scroll User (32 - 1 / 2 ^ 48), Timeout 2]) = [96]"
  by code_simp

text \<open>
  C7, amended. Whatever the offset, the callback of the timer takes the index
  round(c / 32), the integer \<open>\<lfloor>c / 32 + 1 / 2\<rfloor>\<close>, where c is the sum
  scrollTop + offsetHeight / 2 as a double: the sum itself whenever that is a double, and
  within 2^-53 of it, relatively, always. It resolves the value it may report from the
  entry at that index, and then requests a smooth scroll to exactly that index times 32,
  the item height. The offset itself is not written.
\<close>

theorem settle_index_and_snap:
  "(let c = scrollTop s + offsetHeight s / 2;
        i = \<lfloor>fl c / 32 + 1 / 2\<rfloor>
    in \<bar>fl c - c\<bar> \<le> \<bar>c\<bar> / 2 ^ 53
       \<and> (\<forall>k j. c = of_int k * 2 powi j \<and> \<bar>k\<bar> < 2 ^ 53 \<longrightarrow> fl c = c)
       \<and> scrolls (timeoutCallback s) = scrolls s @ [of_int i * 32]
       \<and> scrollTop (timeoutCallback s) = scrollTop s
       \<and> calls (timeoutCallback s) =
           (if mounted s \<and> 0 \<le> i \<and> i < int (length (allValues (values_prop s)))
               \<and> valueAt (allValues (values_prop s)) i \<noteq> selectedValue s
            then calls s @
              [if valueAt (allValues (values_prop s)) i = Some (Str ''-'') then None
               else valueAt (allValues (values_prop s)) i]
            else calls s))"
proof -
  define c where "c = scrollTop s + offsetHeight s / 2"
  define i where "i = \<lfloor>fl c / 32 + 1 / 2\<rfloor>"
  have 1: "\<bar>fl c - c\<bar> \<le> \<bar>c\<bar> / 2 ^ 53" by (rule fl_error)
  have 2: "\<forall>k j. c = of_int k * 2 powi j \<and> \<bar>k\<bar> < 2 ^ 53 \<longrightarrow> fl c = c"
    using fl_representable by blast
  have 3: "scrolls (timeoutCallback s) = scrolls s @ [of_int i * 32]"
    by (simp add: c_def i_def timeoutCallback_def snap_def scrollTo_smooth_def handleScroll_def
        onValueChange_def js_round_def itemHeight_def Let_def)
  have 4: "scrollTop (timeoutCallback s) = scrollTop s"
    by (simp add: timeoutCallback_def snap_def scrollTo_smooth_def handleScroll_def
        onValueChange_def Let_def)
  have 5: "calls (timeoutCallback s) =
           (if mounted s \<and> 0 \<le> i \<and> i < int (length (allValues (values_prop s)))
               \<and> valueAt (allValues (values_prop s)) i \<noteq> selectedValue s
            then calls s @
              [if valueAt (allValues (values_prop s)) i = Some (Str ''-'') then None
               else valueAt (allValues (values_prop s)) i]
            else calls s)"
    by (simp add: c_def i_def timeoutCallback_def snap_def scrollTo_smooth_def handleScroll_def
        onValueChange_def valueAt_def js_round_def itemHeight_def Let_def)
  from 1 2 3 4 5 show ?thesis
    unfolding Let_def c_def i_def by blast
qed

theorem settle_index_and_snap_witness:
  "(44 + 96 / 2 :: rat) = of_int 23 * 2 powi 2 \<and> \<bar>23 :: int\<bar> < 2 ^ 53
   \<and> fl (44 + 96 / 2) = 44 + 96 / 2
   \<and> \<lfloor>fl (44 + 96 / 2) / 32 + 1 / 2\<rfloor> = 3
   \<and> scrolls (timeoutCallback ((mount [Num 10, Num 20, Num 30] (Some (Num 30)) 96)\<lparr>scrollTop := 44\<rparr>))
       = [96]
   \<and> calls (timeoutCallback ((mount [Num 10, Num 20, Num 30] (Some (Num 30)) 96)\<lparr>scrollTop := 44\<rparr>))
       = [Some (Num 10)]"
proof -
  let ?s = "(mount [Num 10, Num 20, Num 30] (Some (Num 30)) 96)\<lparr>scrollTop := 44\<rparr>"
  have st: "scrollTop ?s = 44" "offsetHeight ?s = 96" "scrolls ?s = []" "calls ?s = []"
    by (simp_all add: eval_defs)
  have h: "(44 + 96 / 2 :: rat) = of_int 23 * 2 powi 2 \<and> \<bar>23 :: int\<bar> < 2 ^ 53"
    by simp
  from settle_index_and_snap[of ?s]
  have t: "(\<forall>k j. (44 + 96 / 2 :: rat) = of_int k * 2 powi j \<and> \<bar>k\<bar> < 2 ^ 53
              \<longrightarrow> fl (44 + 96 / 2) = 44 + 96 / 2)"
    "scrolls (timeoutCallback ?s) = [] @ [of_int \<lfloor>fl (44 + 96 / 2) / 32 + 1 / 2\<rfloor> * 32]"
    unfolding Let_def st by blast+
  from t(1) h have e: "fl (44 + 96 / 2) = 44 + 96 / 2" by blast
  then have i: "\<lfloor>fl (44 + 96 / 2) / 32 + 1 / 2\<rfloor> = 3" by (simp add: floor_rat_numeral)
  from t(2) i have sc: "scrolls (timeoutCallback ?s) = [96]" by simp
  have c: "calls (timeoutCallback ?s) = [Some (Num 10)]"
    by (simp add: eval_defs)
  from h e i sc c show ?thesis by blast
qed

text \<open>
  C3, as the spec states it, fails. The picker shows 10, 20, 30 with 30 selected, on an
  element of height 96. The user scrolls; the render that follows the change of
  \<^verbatim>\<open>isScrolling\<close> puts the element back to offset 32, which is reported; the user
  scrolls on to offset 96 and stops. The computed index is 5, outside the four entries.
  Clamped to 3 it would resolve to 10 and snap to offset 96; the code invokes no callback
  and requests the scroll to offset 160.
\<close>

theorem out_of_range_index_is_not_clamped:
  "js_round (fl (96 + 96 / 2) / itemHeight) = 5
   \<and> length (allValues [Num 10, Num 20, Num 30]) = 4
   \<and> valueAt (allValues [Num 10, Num 20, Num 30]) 3 = Some (Num 10)
   \<and> scrollTop (run (mount [Num 10, Num 20, Num 30] (Some (Num 30)) 96)
        [Scroll User 40, Render [Num 10, Num 20, Num 30] (Some (Num 30)),
         Scroll Programmatic 32, Scroll User 96]) = 96
   \<and> timers (run (mount [Num 10, Num 20, Num 30] (Some (Num 30)) 96)
        [Scroll User 40, Render [Num 10, Num 20, Num 30] (Some (Num 30)),
         Scroll Programmatic 32, Scroll User 96]) = [2]
   \<and> calls (run (mount [Num 10, Num 20, Num 30] (Some (Num 30)) 96)
        [Scroll User 40, Render [Num 10, Num 20, Num 30] (Some (Num 30)),
         Scroll Programmatic 32, Scroll User 96, Timeout 2]) = []
   \<and> scrolls (run (mount [Num 10, Num 20, Num 30] (Some (Num 30)) 96)
        [Scroll User 40, Render [Num 10, Num 20, Num 30] (Some (Num 30)),
         Scroll Programmatic 32, Scroll User 96, Timeout 2]) = [160]"
  by (simp add: eval_defs valueAt_def floor_rat_numeral)

text \<open>
  C3, amended. An index outside the display sequence is not clamped: \<^verbatim>\<open>handleScroll\<close>
  then resolves nothing and changes nothing. Whenever it does invoke the callback, the
  argument comes from the entry that exists at the computed index (null for the
  sentinel), so an undefined value is never passed on.
\<close>

theorem out_of_range_index_is_skipped:
  "(\<not> (0 \<le> js_round (fl (scrollTop s + offsetHeight s / 2) / itemHeight)
        \<and> js_round (fl (scrollTop s + offsetHeight s / 2) / itemHeight)
            < int (length (allValues (values_prop s))))
      \<longrightarrow> handleScroll s = s)
   \<and> (\<forall>a. calls (handleScroll s) = calls s @ [a] \<longrightarrow>
        (\<exists>v. valueAt (allValues (values_prop s))
               (js_round (fl (scrollTop s + offsetHeight s / 2) / itemHeight)) = Some v
            \<and> a = (if v = Str ''-'' then None else Some v)))"
  by (simp add: handleScroll_def onValueChange_def valueAt_def Let_def)

theorem out_of_range_index_is_skipped_witness:
  "handleScroll ((mount [Num 10, Num 20, Num 30] (Some (Num 30)) 96)\<lparr>scrollTop := 96\<rparr>)
     = (mount [Num 10, Num 20, Num 30] (Some (Num 30)) 96)\<lparr>scrollTop := 96\<rparr>
   \<and> calls (handleScroll ((mount [Num 10, Num 20, Num 30] (Some (Num 30)) 96)\<lparr>scrollTop := 44\<rparr>))
      = [Some (Num 10)]"
  using out_of_range_index_is_skipped[of "(mount [Num 10, Num 20, Num 30] (Some (Num 30)) 96)\<lparr>scrollTop := 96\<rparr>"]
    out_of_range_index_is_skipped[of "(mount [Num 10, Num 20, Num 30] (Some (Num 30)) 96)\<lparr>scrollTop := 44\<rparr>"]
  by (simp add: eval_defs floor_rat_numeral)

section \<open>Clicks\<close>

text \<open>
  C2 does not hold of the code: with 20 selected, a click on the entry 20 invokes the
  callback with 20.
\<close>

theorem click_on_selected_entry_calls_back:
  "calls (run (mount [Num 10, Num 20, Num 30] (Some (Num 20)) 96) [Click (Num 20)])
     = [Some (Num 20)]"
  by (simp add: eval_defs)

text \<open>
  C8, as the spec states it, fails, in two ways. With the values 10, 10, 20 a click on the
  entry at index 3, the second 10, requests the scroll to offset 64, where the first 10
  is, not to 96. And a click is not the end of it: the picker shows 10, 20, 30 with 30
  selected (the parent has selected it, and the scroll event reporting that move has
  left \<^verbatim>\<open>isScrolling\<close> set); a click on the sentinel invokes the callback with
  null; the parent then renders the picker with nothing selected, the sync effect moves
  the element to offset 0, the scroll event reporting that move starts the timer, and
  the settle invokes the callback a second time, with 20.
\<close>

theorem click_is_followed_by_a_second_callback:
  "valueAt (allValues [Num 10, Num 10, Num 20]) 3 = Some (Num 10)
   \<and> scrolls (run (mount [Num 10, Num 10, Num 20] (Some (Num 20)) 96) [Click (Num 10)]) = [64]
   \<and> 3 * itemHeight = 96
   \<and> selectedValue (run (mount [Num 10, Num 20, Num 30] (Some (Num 20)) 96)
      [Render [Num 10, Num 20, Num 30] (Some (Num 30)), Scroll Programmatic 32,
       Render [Num 10, Num 20, Num 30] (Some (Num 30))]) = Some (Num 30)
   \<and> calls (run (mount [Num 10, Num 20, Num 30] (Some (Num 20)) 96)
      [Render [Num 10, Num 20, Num 30] (Some (Num 30)), Scroll Programmatic 32,
       Render [Num 10, Num 20, Num 30] (Some (Num 30)),
       Click (Str ''-'')]) = [None]
   \<and> timers (run (mount [Num 10, Num 20, Num 30] (Some (Num 20)) 96)
      [Render [Num 10, Num 20, Num 30] (Some (Num 30)), Scroll Programmatic 32,
       Render [Num 10, Num 20, Num 30] (Some (Num 30)),
       Click (Str ''-''), Render [Num 10, Num 20, Num 30] None, Scroll Programmatic 0]) = [1]
   \<and> calls (run (mount [Num 10, Num 20, Num 30] (Some (Num 20)) 96)
      [Render [Num 10, Num 20, Num 30] (Some (Num 30)), Scroll Programmatic 32,
       Render [Num 10, Num 20, Num 30] (Some (Num 30)),
       Click (Str ''-''), Render [Num 10, Num 20, Num 30] None, Scroll Programmatic 0,
       Timeout 1]) = [None, Some (Num 20)]"
  by (simp add: eval_defs valueAt_def)

text \<open>
  C8, amended. A click on the sentinel entry makes the handler invoke the callback once,
  with null, and request a smooth scroll to offset 0, whatever value is selected. A click
  on the entry at index i of a display sequence without duplicates requests the scroll
  to exactly i times the item height. The handler touches neither the pending timer nor
  the variable holding it nor \<^verbatim>\<open>isScrolling\<close>, and every click makes it invoke the
  callback exactly once. A scroll event that reports the repositioning afterwards is
  handled exactly as one that reports a gesture: it goes through the debounce.
\<close>

theorem click_calls_back_and_scrolls:
  assumes "mounted s"
  shows "calls (handleItemClick (Str ''-'') s) = calls s @ [None]
       \<and> scrolls (handleItemClick (Str ''-'') s) = scrolls s @ [0]
       \<and> (distinct (allValues (values_prop s)) \<and> i < length (allValues (values_prop s))
            \<longrightarrow> scrolls (handleItemClick (allValues (values_prop s) ! i) s)
                  = scrolls s @ [of_nat i * itemHeight])
       \<and> timers (handleItemClick v s) = timers s
       \<and> scrollTimeout (handleItemClick v s) = scrollTimeout s
       \<and> isScrolling (handleItemClick v s) = isScrolling s
       \<and> length (calls (handleItemClick v s)) = Suc (length (calls s))
       \<and> step (Scroll Programmatic p) (handleItemClick v s)
           = step (Scroll User p) (handleItemClick v s)"
proof -
  have nth: "indexOf (allValues (values_prop s)) (allValues (values_prop s) ! i) = int i"
    if "distinct (allValues (values_prop s))" "i < length (allValues (values_prop s))"
    using indexOf_from_nth[OF that, of 0] by (simp add: indexOf_def)
  have zero: "indexOf (allValues (values_prop s)) (Str ''-'') = 0"
    by (simp add: allValues_def indexOf_def)
  have m: "mounted (onValueChange a s)" "values_prop (onValueChange a s) = values_prop s"
    "scrolls (onValueChange a s) = scrolls s" "calls (onValueChange a s) = calls s @ [a]" for a
    using assms by (simp_all add: onValueChange_def)
  have "scrolls (handleItemClick w s) =
          scrolls s @ [of_int (indexOf (allValues (values_prop s)) w) * itemHeight]" for w
    by (simp add: handleItemClick_def scrollTo_smooth_def Let_def m)
  moreover have "calls (handleItemClick (Str ''-'') s) = calls s @ [None]"
    by (simp add: handleItemClick_def scrollTo_smooth_def Let_def m)
  moreover have "timers (handleItemClick v s) = timers s"
    "scrollTimeout (handleItemClick v s) = scrollTimeout s"
    "isScrolling (handleItemClick v s) = isScrolling s"
    "length (calls (handleItemClick v s)) = Suc (length (calls s))"
    by (simp_all add: handleItemClick_def scrollTo_smooth_def onValueChange_def Let_def)
  ultimately show ?thesis
    using nth zero by simp
qed

theorem click_calls_back_and_scrolls_witness:
  "mounted (mount [Num 10, Num 20, Num 30] (Some (Num 30)) 96)
   \<and> distinct (allValues [Num 10, Num 20, Num 30])
   \<and> calls (handleItemClick (Str ''-'') (mount [Num 10, Num 20, Num 30] (Some (Num 30)) 96))
       = [None]
   \<and> scrolls (handleItemClick (Str ''-'') (mount [Num 10, Num 20, Num 30] (Some (Num 30)) 96))
       = [0]
   \<and> scrolls (handleItemClick (Num 20) (mount [Num 10, Num 20, Num 30] (Some (Num 30)) 96))
       = [64]
   \<and> timers (handleItemClick (Num 20) (mount [Num 10, Num 20, Num 30] (Some (Num 30)) 96)) = []"
  using click_calls_back_and_scrolls[of "mount [Num 10, Num 20, Num 30] (Some (Num 30)) 96" 2 "Num 20"]
  by (simp add: eval_defs)

section \<open>Week keys, groups and the sort\<close>

lemma digit_of_props:
  assumes "d < 10"
  shows "is_digit (digit_of d)" and "digit_val (digit_of d) = d" and "digit_of d \<noteq> CHR '' ''"
proof -
  from assms have m: "(48 + d) mod 256 = 48 + d" by simp
  show "is_digit (digit_of d)" using assms by (simp add: is_digit_def digit_of_def m)
  show "digit_val (digit_of d) = d" by (simp add: digit_val_def digit_of_def m)
  have "of_char (digit_of d) \<noteq> (of_char (CHR '' '') :: nat)"
    by (simp add: digit_of_def m)
  then show "digit_of d \<noteq> CHR '' ''" by auto
qed

lemma string_of_nat_digits: "c \<in> set (string_of_nat n) \<Longrightarrow> is_digit c \<and> c \<noteq> CHR '' ''"
proof (induction n arbitrary: c rule: string_of_nat.induct)
  case (1 n)
  show ?case
  proof (cases "n < 10")
    case True
    with "1.prems" show ?thesis
      by (simp add: string_of_nat.simps[of n] digit_of_props)
  next
    case False
    with "1.prems" "1.IH" show ?thesis
      by (auto simp: string_of_nat.simps[of n] digit_of_props)
  qed
qed

lemma string_of_nat_not_Nil: "string_of_nat n \<noteq> []"
  by (simp add: string_of_nat.simps[of n])

lemma digits_value:
  "foldl (\<lambda>acc c. acc * 10 + digit_val c) 0 (string_of_nat n) = n"
proof (induction n rule: string_of_nat.induct)
  case (1 n)
  show ?case
  proof (cases "n < 10")
    case True
    then show ?thesis by (simp add: string_of_nat.simps[of n] digit_of_props)
  next
    case False
    with "1.IH" show ?thesis
      by (simp add: string_of_nat.simps[of n] digit_of_props)
  qed
qed

lemma parseInt_string_of_nat: "parseInt (string_of_nat n) = Some n"
proof -
  have tw: "takeWhile is_digit (string_of_nat n) = string_of_nat n"
    by (rule takeWhile_eq_all_conv[THEN iffD2]) (simp add: string_of_nat_digits)
  show ?thesis
    unfolding parseInt_def tw by (simp add: Let_def string_of_nat_not_Nil digits_value)
qed

lemma split_on_absent: "c \<notin> set xs \<Longrightarrow> split_on c xs = [xs]"
  by (induction xs) auto

lemma weekNumOfKey_weekKey: "weekNumOfKey (weekKey n) = Some n"
proof -
  have "CHR '' '' \<notin> set (string_of_nat n)"
    using string_of_nat_digits by blast
  then show ?thesis
    by (simp add: weekKey_def weekNumOfKey_def split_on_absent parseInt_string_of_nat)
qed

lemma weekKey_eq_iff: "weekKey a = weekKey b \<longleftrightarrow> a = b"
  by (metis option.inject weekNumOfKey_weekKey)

lemma keys_push_report:
  "map fst (push_report k r g) =
     (if k \<in> set (map fst g) then map fst g else map fst g @ [k])"
  by (induction g) force+

lemma map_of_push_report:
  "map_of (push_report k r g) =
     (map_of g)(k \<mapsto> (case map_of g k of None \<Rightarrow> [r] | Some rs \<Rightarrow> rs @ [r]))"
  by (induction g) (auto simp: fun_eq_iff)

lemma groups_from:
  fixes g :: "(string \<times> MigraineReport list) list"
  assumes "distinct (map fst g)"
  shows "distinct (map fst (foldl (\<lambda>g report. push_report (weekKey (weekNum report)) report g) g rs))
       \<and> set (map fst (foldl (\<lambda>g report. push_report (weekKey (weekNum report)) report g) g rs))
           = fst ` set g \<union> (\<lambda>r. weekKey (weekNum r)) ` set rs
       \<and> (\<forall>k. map_of (foldl (\<lambda>g report. push_report (weekKey (weekNum report)) report g) g rs) k =
            (if filter (\<lambda>r. weekKey (weekNum r) = k) rs = [] then map_of g k
             else Some ((case map_of g k of None \<Rightarrow> [] | Some xs \<Rightarrow> xs)
                        @ filter (\<lambda>r. weekKey (weekNum r) = k) rs)))"
  using assms
proof (induction rs arbitrary: g)
  case Nil
  then show ?case by simp
next
  case (Cons r rs)
  let ?g = "push_report (weekKey (weekNum r)) r g"
  have d: "distinct (map fst ?g)"
    using Cons.prems by (simp add: keys_push_report)
  have s: "fst ` set ?g = insert (weekKey (weekNum r)) (fst ` set g)"
  proof -
    have "set (map fst ?g) = insert (weekKey (weekNum r)) (set (map fst g))"
      unfolding keys_push_report by auto
    then show ?thesis by simp
  qed
  from Cons.IH[OF d] s show ?case
    by (auto simp: map_of_push_report split: option.splits)
qed

lemma weekGroups_props:
  "distinct (map fst (weekGroups mr))"
  "fst ` set (weekGroups mr) = (\<lambda>r. weekKey (weekNum r)) ` set mr"
  "(k, rs) \<in> set (weekGroups mr) \<Longrightarrow> rs = filter (\<lambda>r. weekKey (weekNum r) = k) mr \<and> rs \<noteq> []"
proof -
  have g: "distinct (map fst ([] :: (string \<times> MigraineReport list) list))" by simp
  note p = groups_from[OF g, of mr, folded weekGroups_def]
  from p show d: "distinct (map fst (weekGroups mr))" by blast
  from p show "fst ` set (weekGroups mr) = (\<lambda>r. weekKey (weekNum r)) ` set mr" by simp
  assume "(k, rs) \<in> set (weekGroups mr)"
  with d have "map_of (weekGroups mr) k = Some rs" by simp
  with p show "rs = filter (\<lambda>r. weekKey (weekNum r) = k) mr \<and> rs \<noteq> []"
    by (auto split: if_splits)
qed


lemma insert_sorted_map:
  assumes "\<And>a b. (cmp (E a) (E b) \<le> 0) = (a \<le> b)"
  shows "insert_sorted cmp (E x) (map E ys) = map E (insort x ys)"
  by (induction ys) (simp_all add: assms)

lemma sort_with_map:
  fixes E :: "nat \<Rightarrow> 'a"
  assumes "\<And>a b. (cmp (E a) (E b) \<le> 0) = (a \<le> b)"
  shows "sort_with cmp (map E xs) = map E (sort xs)"
proof (induction xs)
  case Nil
  then show ?case by (simp add: sort_with_def)
next
  case (Cons x xs)
  have "sort_with cmp (map E (x # xs)) = insert_sorted cmp (E x) (sort_with cmp (map E xs))"
    by (simp add: sort_with_def)
  also have "\<dots> = map E (insort x (sort xs))"
    by (simp add: Cons.IH insert_sorted_map[of cmp E, OF assms])
  finally show ?case by (simp add: sort_key_def)
qed

section \<open>The weekly pipeline\<close>

lemma week_weekData: "week (weekData mr w) = weekKey w"
  by (simp add: weekData_def weekEntry_def Let_def)

lemma compareWeeks_weekData:
  "(compareWeeks (weekData mr a) (weekData mr b) \<le> 0) = (a \<le> b)"
  by (simp add: compareWeeks_def week_weekData weekNumOfKey_weekKey)

lemma weekGroups_entries:
  "\<exists>ws. distinct ws \<and> set ws = weekNum ` set mr
        \<and> map weekEntry (weekGroups mr) = map (weekData mr) ws"
proof -
  define kf :: "string \<times> MigraineReport list \<Rightarrow> nat"
    where "kf p = (case weekNumOfKey (fst p) of Some n \<Rightarrow> n | None \<Rightarrow> 0)" for p
  let ?g = "weekGroups mr"
  have el: "kf p \<in> weekNum ` set mr \<and> fst p = weekKey (kf p)
            \<and> weekEntry p = weekData mr (kf p)"
    if "p \<in> set ?g" for p
  proof -
    obtain k rs where p: "p = (k, rs)" by (cases p)
    with that weekGroups_props(3)[of k rs mr]
    have rs: "rs = filter (\<lambda>r. weekKey (weekNum r) = k) mr" "rs \<noteq> []" by auto
    then obtain r where r: "r \<in> set mr" "weekKey (weekNum r) = k"
      by (metis (mono_tags, lifting) filter_False)
    then have k: "k = weekKey (weekNum r)" by simp
    have kf: "kf p = weekNum r" by (simp add: kf_def p k weekNumOfKey_weekKey)
    have "rs = filter (\<lambda>x. weekNum x = weekNum r) mr"
      unfolding rs(1) k by (simp add: weekKey_eq_iff)
    with r kf k p show ?thesis by (simp add: weekData_def)
  qed
  have inj: "inj_on kf (set ?g)"
  proof (rule inj_onI)
    fix a b assume ab: "a \<in> set ?g" "b \<in> set ?g" "kf a = kf b"
    then have "fst a = fst b" using el[of a] el[of b] by simp
    moreover have "inj_on fst (set ?g)" "distinct ?g"
      using weekGroups_props(1)[of mr] by (simp_all add: distinct_map)
    ultimately show "a = b" using ab by (auto dest: inj_onD)
  qed
  have "distinct ?g" using weekGroups_props(1)[of mr] by (simp add: distinct_map)
  with inj have d: "distinct (map kf ?g)" by (simp add: distinct_map)
  have s: "set (map kf ?g) = weekNum ` set mr"
  proof (intro equalityI subsetI)
    fix w assume "w \<in> set (map kf ?g)"
    then show "w \<in> weekNum ` set mr" using el by auto
  next
    fix w assume "w \<in> weekNum ` set mr"
    then obtain r where r: "r \<in> set mr" "w = weekNum r" by auto
    then have "weekKey (weekNum r) \<in> fst ` set ?g" by (simp add: weekGroups_props(2))
    then obtain p where p: "p \<in> set ?g" "fst p = weekKey (weekNum r)" by auto
    then have "kf p = w" by (simp add: kf_def weekNumOfKey_weekKey r)
    with p show "w \<in> set (map kf ?g)" by auto
  qed
  have "map weekEntry ?g = map (weekData mr) (map kf ?g)"
    using el by simp
  with d s show ?thesis by blast
qed

lemma pipeline_by_week:
  "sort_with compareWeeks (map weekEntry (weekGroups mr))
     = map (weekData mr) (sorted_list_of_set (weekNum ` set mr))"
proof -
  from weekGroups_entries[of mr] obtain ws where ws: "distinct ws" "set ws = weekNum ` set mr"
    "map weekEntry (weekGroups mr) = map (weekData mr) ws" by blast
  have "sort_with compareWeeks (map (weekData mr) ws) = map (weekData mr) (sort ws)"
    by (rule sort_with_map) (rule compareWeeks_weekData)
  moreover have "sort ws = sorted_list_of_set (weekNum ` set mr)"
    using ws(1,2) by (metis distinct_remdups_id sorted_list_of_set_sort_remdups)
  ultimately show ?thesis by (simp add: ws(3))
qed

lemma weekNum_range:
  assumes "1 \<le> getDate (date r)" and "getDate (date r) \<le> 31"
  shows "1 \<le> weekNum r \<and> weekNum r \<le> 5"
proof -
  let ?d = "getDate (date r)"
  have "0 < rat_of_nat ?d / 7" using assms(1) by simp
  then have 1: "1 \<le> \<lceil>rat_of_nat ?d / 7\<rceil>" by (simp add: Suc_le_eq)
  have "rat_of_nat ?d / 7 \<le> 5" using assms(2) by simp
  then have 2: "\<lceil>rat_of_nat ?d / 7\<rceil> \<le> 5" by (simp add: ceiling_le_iff)
  from 1 2 show ?thesis unfolding weekNum_def Let_def by linarith
qed

text \<open>
  C9. For reports of which at least one falls in the current month, each report of the
  month is given the week number ceil(day of month / 7), which lies between 1 and 5 for
  a day between 1 and 31. The result has exactly one entry for every week number that
  occurs, in strictly ascending order of the week number its key parses to, and the
  entry of a week is computed from exactly the month's reports of that week.
\<close>

theorem weekly_entries_one_per_week_ascending:
  assumes "\<forall>r \<in> set reports. 1 \<le> getDate (date r) \<and> getDate (date r) \<le> 31"
    and "monthReports now reports \<noteq> []"
  shows "(\<forall>r \<in> set (monthReports now reports).
            weekNum r = nat \<lceil>rat_of_nat (getDate (date r)) / 7\<rceil>
            \<and> 1 \<le> weekNum r \<and> weekNum r \<le> 5)
       \<and> (\<exists>out ws. processReports now reports = Some out
            \<and> sorted_wrt (<) ws
            \<and> set ws = weekNum ` set (monthReports now reports)
            \<and> map week out = map (\<lambda>w. weekKey w) ws
            \<and> map (\<lambda>e. weekNumOfKey (week e)) out = map Some ws
            \<and> out = map (\<lambda>w. weekEntry (weekKey w,
                                filter (\<lambda>r. weekNum r = w) (monthReports now reports))) ws)"
proof (intro conjI ballI)
  fix r assume "r \<in> set (monthReports now reports)"
  then have "r \<in> set reports" by (simp add: monthReports_def)
  with assms(1) show "weekNum r = nat \<lceil>rat_of_nat (getDate (date r)) / 7\<rceil>"
    "1 \<le> weekNum r" "weekNum r \<le> 5"
    using weekNum_range[of r] by (simp_all add: weekNum_def Let_def)
next
  let ?mr = "monthReports now reports"
  let ?ws = "sorted_list_of_set (weekNum ` set ?mr)"
  let ?out = "map (weekData ?mr) ?ws"
  have p: "processReports now reports = Some ?out"
    using assms(2) by (simp add: processReports_def pipeline_by_week)
  have 1: "sorted_wrt (<) ?ws" by (simp add: strict_sorted_iff)
  have 2: "set ?ws = weekNum ` set ?mr" by simp
  have 3: "map week ?out = map (\<lambda>w. weekKey w) ?ws"
    by (simp add: week_weekData)
  have 4: "map (\<lambda>e. weekNumOfKey (week e)) ?out = map Some ?ws"
    by (simp add: week_weekData weekNumOfKey_weekKey)
  have 5: "?out = map (\<lambda>w. weekEntry (weekKey w,
                                filter (\<lambda>r. weekNum r = w) ?mr)) ?ws"
    by (simp add: weekData_def)
  from p 1 2 3 4 5
  show "\<exists>out ws. processReports now reports = Some out
            \<and> sorted_wrt (<) ws
            \<and> set ws = weekNum ` set ?mr
            \<and> map week out = map (\<lambda>w. weekKey w) ws
            \<and> map (\<lambda>e. weekNumOfKey (week e)) out = map Some ws
            \<and> out = map (\<lambda>w. weekEntry (weekKey w,
                                filter (\<lambda>r. weekNum r = w) ?mr)) ws"
    by blast
qed


theorem weekly_entries_one_per_week_ascending_witness:
  "list_all (\<lambda>r. 1 \<le> getDate (date r) \<and> getDate (date r) \<le> 31) november_reports
   \<and> monthReports november_20 november_reports \<noteq> []
   \<and> list_all (\<lambda>r. 1 \<le> weekNum r \<and> weekNum r \<le> 5)
         (monthReports november_20 november_reports)
   \<and> (\<exists>out ws. processReports november_20 november_reports = Some out
         \<and> sorted_wrt (<) ws
         \<and> set ws = weekNum ` set (monthReports november_20 november_reports)
         \<and> map week out = map weekKey ws)
   \<and> processReports november_20 november_reports =
       Some [\<lparr>week = ''Week 1'', hydration = 7, stress = 4, caffeine = 4, screenTime = 5,
               sleep = Some (7 / 2)\<rparr>,
             \<lparr>week = ''Week 3'', hydration = 4, stress = 7, caffeine = 6, screenTime = 7,
               sleep = Some (51 / 10)\<rparr>]"
proof -
  have h1: "\<forall>r \<in> set november_reports. 1 \<le> getDate (date r) \<and> getDate (date r) \<le> 31"
    by (simp add: november_reports_def)
  have h2: "monthReports november_20 november_reports \<noteq> []"
    by (simp add: monthReports_def november_reports_def november_20_def)
  have ev: "processReports november_20 november_reports =
       Some [\<lparr>week = ''Week 1'', hydration = 7, stress = 4, caffeine = 4, screenTime = 5,
               sleep = Some (7 / 2)\<rparr>,
             \<lparr>week = ''Week 3'', hydration = 4, stress = 7, caffeine = 6, screenTime = 7,
               sleep = Some (51 / 10)\<rparr>]"
    by code_simp
  from weekly_entries_one_per_week_ascending[OF h1 h2] h1 h2 ev show ?thesis
    unfolding list_all_iff by blast
qed

section \<open>The sleep level\<close>

lemma toFixed1_tenths:
  assumes "0 \<le> k"
  shows "toFixed1 (rat_of_int k / 10) = rat_of_int k / 10"
proof -
  have "\<lfloor>rat_of_int k + 1 / 2\<rfloor> = k" by linarith
  moreover have "\<not> rat_of_int k / 10 < 0" using assms by simp
  ultimately show ?thesis by (simp add: toFixed1_def)
qed

lemma sleep_level:
  fixes w :: nat
  defines "x \<equiv> min (7 / 2 + 4 / 5 * (rat_of_nat w - 1)) (15 / 2)"
  shows "toFixed1 x = x" and "x \<le> 15 / 2" and "1 \<le> w \<Longrightarrow> 7 / 2 \<le> x"
proof -
  have x: "x = rat_of_int (min (27 + 8 * int w) 75) / 10"
    by (simp add: x_def min_def field_simps)
  have "0 \<le> min (27 + 8 * int w) 75" by simp
  then show "toFixed1 x = x"
    unfolding x by (rule toFixed1_tenths)
  show "x \<le> 15 / 2" unfolding x_def by (rule min.cobounded2)
  show "7 / 2 \<le> x" if "1 \<le> w"
  proof -
    from that have "0 \<le> 4 / 5 * (rat_of_nat w - 1)" by simp
    then show ?thesis unfolding x_def by linarith
  qed
qed

lemma sleep_weekData:
  "sleep (weekData mr w) = Some (toFixed1 (min (7 / 2 + 4 / 5 * (rat_of_nat w - 1)) (15 / 2)))"
  by (simp add: weekData_def weekEntry_def weekNumOfKey_weekKey avgSleep_def Let_def
      mult.commute)

text \<open>
  C10. The sleep level of a week's entry is min(3.5 + 0.8 * (w - 1), 7.5) for the week
  number w of its key, which rounding to one decimal leaves as it is, and it lies
  between 3.5 and 7.5. No field of a report enters it: two runs whose reports of the
  month occupy the same week numbers give the same list of sleep levels.
\<close>

theorem sleep_is_a_function_of_the_week_number:
  assumes "\<forall>r \<in> set reports1. 1 \<le> getDate (date r) \<and> getDate (date r) \<le> 31"
    and "monthReports now1 reports1 \<noteq> []"
    and "monthReports now2 reports2 \<noteq> []"
    and "weekNum ` set (monthReports now1 reports1) = weekNum ` set (monthReports now2 reports2)"
  shows "\<exists>out1 out2. processReports now1 reports1 = Some out1
          \<and> processReports now2 reports2 = Some out2
          \<and> map sleep out1 = map sleep out2
          \<and> (\<forall>e \<in> set out1. \<exists>w.
                weekNumOfKey (week e) = Some w
                \<and> sleep e = Some (toFixed1 (min (7 / 2 + 4 / 5 * (rat_of_nat w - 1)) (15 / 2)))
                \<and> toFixed1 (min (7 / 2 + 4 / 5 * (rat_of_nat w - 1)) (15 / 2))
                    = min (7 / 2 + 4 / 5 * (rat_of_nat w - 1)) (15 / 2)
                \<and> 7 / 2 \<le> min (7 / 2 + 4 / 5 * (rat_of_nat w - 1)) (15 / 2)
                \<and> min (7 / 2 + 4 / 5 * (rat_of_nat w - 1)) (15 / 2) \<le> 15 / 2)"
proof -
  let ?m1 = "monthReports now1 reports1" and ?m2 = "monthReports now2 reports2"
  let ?ws = "sorted_list_of_set (weekNum ` set ?m1)"
  have p1: "processReports now1 reports1 = Some (map (weekData ?m1) ?ws)"
    using assms(2) by (simp add: processReports_def pipeline_by_week)
  have p2: "processReports now2 reports2 = Some (map (weekData ?m2) ?ws)"
    using assms(3) by (simp add: processReports_def pipeline_by_week assms(4))
  have eq: "map sleep (map (weekData ?m1) ?ws) = map sleep (map (weekData ?m2) ?ws)"
    by (simp add: sleep_weekData)
  have each: "\<exists>w. weekNumOfKey (week e) = Some w
                \<and> sleep e = Some (toFixed1 (min (7 / 2 + 4 / 5 * (rat_of_nat w - 1)) (15 / 2)))
                \<and> toFixed1 (min (7 / 2 + 4 / 5 * (rat_of_nat w - 1)) (15 / 2))
                    = min (7 / 2 + 4 / 5 * (rat_of_nat w - 1)) (15 / 2)
                \<and> 7 / 2 \<le> min (7 / 2 + 4 / 5 * (rat_of_nat w - 1)) (15 / 2)
                \<and> min (7 / 2 + 4 / 5 * (rat_of_nat w - 1)) (15 / 2) \<le> 15 / 2"
    if "e \<in> set (map (weekData ?m1) ?ws)" for e
  proof -
    from that obtain r where r: "r \<in> set ?m1" "e = weekData ?m1 (weekNum r)" by auto
    then have "r \<in> set reports1" by (simp add: monthReports_def)
    with assms(1) have "1 \<le> weekNum r" using weekNum_range[of r] by simp
    with r(2) sleep_level[of "weekNum r"] show ?thesis
      by (intro exI[of _ "weekNum r"])
        (simp only: week_weekData weekNumOfKey_weekKey sleep_weekData simp_thms)
  qed
  from p1 p2 eq each show ?thesis by blast
qed

theorem sleep_is_a_function_of_the_week_number_witness:
  "list_all (\<lambda>r. 1 \<le> getDate (date r) \<and> getDate (date r) \<le> 31) november_reports
   \<and> monthReports november_20 november_reports \<noteq> []
   \<and> monthReports january_25 january_reports \<noteq> []
   \<and> weekNum ` set (monthReports november_20 november_reports)
       = weekNum ` set (monthReports january_25 january_reports)
   \<and> (\<exists>out1 out2. processReports november_20 november_reports = Some out1
         \<and> processReports january_25 january_reports = Some out2
         \<and> map sleep out1 = map sleep out2)
   \<and> map_option (map sleep) (processReports november_20 november_reports)
       = Some [Some (7 / 2), Some (51 / 10)]
   \<and> map_option (map sleep) (processReports january_25 january_reports)
       = Some [Some (7 / 2), Some (51 / 10)]"
proof -
  have h1: "\<forall>r \<in> set november_reports. 1 \<le> getDate (date r) \<and> getDate (date r) \<le> 31"
    by (simp add: november_reports_def)
  have h2: "monthReports november_20 november_reports \<noteq> []"
    by (simp add: monthReports_def november_reports_def november_20_def)
  have h3: "monthReports january_25 january_reports \<noteq> []"
    by (simp add: monthReports_def january_reports_def january_25_def)
  have h4: "weekNum ` set (monthReports november_20 november_reports)
       = weekNum ` set (monthReports january_25 january_reports)"
    by code_simp
  have ev: "map_option (map sleep) (processReports november_20 november_reports)
       = Some [Some (7 / 2), Some (51 / 10)]"
    "map_option (map sleep) (processReports january_25 january_reports)
       = Some [Some (7 / 2), Some (51 / 10)]"
    by code_simp+
  from sleep_is_a_function_of_the_week_number[OF h1 h2 h3 h4] h1 h2 h3 h4 ev show ?thesis
    unfolding list_all_iff by blast
qed

end
